theory Spec2Isabelle
  imports Complex_Main "HOL-Library.Multiset"
begin

section \<open>Logit values\<close>

text \<open>
  The interpreter works on a one-dimensional numpy array of binary64 floats. Its
  primitives never do arithmetic on an entry: they compare entries, reorder them and
  overwrite some with \<open>-np.inf\<close>. An entry is therefore modelled by the value it
  denotes: negative infinity, a finite number, positive infinity, or NaN. Comparing two
  finite floats is comparing the reals they denote, so \<open>Fin\<close> carries a real. The two
  zeros, which every comparison treats alike, are the one value \<open>Fin 0\<close>.
\<close>

datatype logit = NegInf | Fin real | PosInf | NaN

text \<open>The comparison \<open><=\<close> of two floats: false as soon as one side is NaN.\<close>

fun fl_le :: "logit \<Rightarrow> logit \<Rightarrow> bool" where
  "fl_le NaN b = False"
| "fl_le a NaN = False"
| "fl_le NegInf b = True"
| "fl_le a PosInf = True"
| "fl_le (Fin x) (Fin y) = (x \<le> y)"
| "fl_le (Fin x) NegInf = False"
| "fl_le PosInf b = False"

text \<open>The comparisons \<open><\<close>, \<open>>\<close> and \<open>>=\<close>, false as well when one side is NaN.\<close>

definition fl_lt :: "logit \<Rightarrow> logit \<Rightarrow> bool" where
  "fl_lt a b = (fl_le a b \<and> a \<noteq> b)"

definition fl_gt :: "logit \<Rightarrow> logit \<Rightarrow> bool" where
  "fl_gt a b = fl_lt b a"

definition fl_ge :: "logit \<Rightarrow> logit \<Rightarrow> bool" where
  "fl_ge a b = fl_le b a"

text \<open>
  The order \<open>np.sort\<close> sorts by: the comparison of floats, with every NaN placed after
  all other values. It is a linear order on \<open>logit\<close>, so a vector has one sorted
  arrangement (\<open>np_sort_unique\<close> below) and the sorting algorithm numpy picks does not
  show in the result; insertion sort stands for it.
\<close>

definition np_le :: "logit \<Rightarrow> logit \<Rightarrow> bool" where
  "np_le a b = (b = NaN \<or> fl_le a b)"

fun np_insert :: "logit \<Rightarrow> logit list \<Rightarrow> logit list" where
  "np_insert x [] = [x]"
| "np_insert x (y # ys) = (if np_le x y then x # y # ys else y # np_insert x ys)"

definition np_sort :: "logit list \<Rightarrow> logit list" where
  "np_sort xs = foldr np_insert xs []"

section \<open>Errors\<close>

text \<open>
  Every \<open>raise\<close> of the notebook and every exception of a builtin it calls is a value
  of \<open>error\<close>. All but \<open>IndexError\<close> are Python's \<open>ValueError\<close>, told apart by
  what raises them.
\<close>

datatype error =
    InvalidOrder string
  | InvalidSliceRange int int nat
  | InvalidOperator string
  | UnknownCommand string
  | UnpackError nat
  | IntLiteralError string
  | FloatLiteralError string
  | IndexError

section \<open>The primitives\<close>

definition sort_logits :: "logit list \<Rightarrow> string \<Rightarrow> error + logit list" where
  "sort_logits logits order =
     (if order = ''-'' then Inr (rev (np_sort logits))
      else if order = ''+'' then Inr (np_sort logits)
      else Inl (InvalidOrder order))"

text \<open>
  \<open>mask[n:m] = True\<close> on a boolean array \<open>msk\<close>: a bound below zero counts from the end, and
  both bounds are clipped to the array, as numpy's basic slicing does.
\<close>

definition slice_bound :: "nat \<Rightarrow> int \<Rightarrow> nat" where
  "slice_bound len i = (if i < 0 then nat (max 0 (int len + i)) else min (nat i) len)"

definition set_range :: "bool list \<Rightarrow> int \<Rightarrow> int \<Rightarrow> bool list" where
  "set_range msk n m =
     map (\<lambda>(j, b). if slice_bound (length msk) n \<le> j \<and> j < slice_bound (length msk) m
                     then True else b)
         (zip [0 ..< length msk] msk)"

definition np_where :: "bool list \<Rightarrow> logit list \<Rightarrow> logit \<Rightarrow> logit list" where
  "np_where msk logits v = map (\<lambda>(b, x). if b then x else v) (zip msk logits)"

definition slice_logits :: "logit list \<Rightarrow> int option \<Rightarrow> int option \<Rightarrow> error + logit list" where
  "slice_logits logits n0 m0 =
     (let n = (case n0 of None \<Rightarrow> 0 | Some i \<Rightarrow> i);
          m = (case m0 of None \<Rightarrow> int (length logits) | Some i \<Rightarrow> i)
      in if n < 0 \<or> m > int (length logits) \<or> n \<ge> m
         then Inl (InvalidSliceRange n m (length logits))
         else Inr (np_where (set_range (replicate (length logits) False) n m) logits NegInf))"

definition threshold_logits :: "logit list \<Rightarrow> string \<Rightarrow> logit \<Rightarrow> error + logit list" where
  "threshold_logits logits op v =
     (if op = ''<'' then Inr (map (\<lambda>x. if fl_lt x v then NegInf else x) logits)
      else if op = ''>'' then Inr (map (\<lambda>x. if fl_gt x v then NegInf else x) logits)
      else if op = ''<='' then Inr (map (\<lambda>x. if fl_le x v then NegInf else x) logits)
      else if op = ''>='' then Inr (map (\<lambda>x. if fl_ge x v then NegInf else x) logits)
      else Inl (InvalidOperator op))"

section \<open>Strings\<close>

text \<open>
  A program text is a string of code points below 256. \<open>is_space\<close> is
  \<open>str.isspace\<close> on them: tab, line feed, vertical tab, form feed, carriage
  return, the four separators 28 to 31, the space, and the code points 133 and 160.
\<close>

definition is_space :: "char \<Rightarrow> bool" where
  "is_space c = (of_char c \<in> {9, 10, 11, 12, 13, 28, 29, 30, 31, 32, 133, 160 :: nat})"

text \<open>\<open>s.strip()\<close>.\<close>

definition strip :: "string \<Rightarrow> string" where
  "strip s = rev (dropWhile is_space (rev (dropWhile is_space s)))"

text \<open>
  \<open>s.split(sep)\<close> for a separator of one character is \<open>split_where (\<lambda>c. c = sep)\<close>:
  a cut at every separator, empty pieces kept. \<open>s.split()\<close> cuts at every whitespace
  character and drops the empty pieces.
\<close>

fun split_where :: "(char \<Rightarrow> bool) \<Rightarrow> string \<Rightarrow> string list" where
  "split_where P [] = [[]]"
| "split_where P (c # cs) =
     (if P c then [] # split_where P cs
      else (case split_where P cs of
              [] \<Rightarrow> [[c]]
            | w # ws \<Rightarrow> (c # w) # ws))"

definition split_on :: "char \<Rightarrow> string \<Rightarrow> string list" where
  "split_on sep s = split_where (\<lambda>c. c = sep) s"

definition split_ws :: "string \<Rightarrow> string list" where
  "split_ws s = filter (\<lambda>w. w \<noteq> []) (split_where is_space s)"

text \<open>
  \<open>int(s)\<close> on a string: surrounding whitespace is stripped, one sign is allowed,
  and the rest is decimal digits, where single underscores may stand between digits.
  \<open>None\<close> is the \<open>ValueError\<close>. Python integers are unbounded, and so is \<open>int\<close>
  here; the cap that an interpreter may put on the number of digits of a literal
  (thousands of digits, and configurable) is not modelled.
\<close>

definition is_digit :: "char \<Rightarrow> bool" where
  "is_digit c = (c \<in> set ''0123456789'')"

definition digit_val :: "char \<Rightarrow> nat" where
  "digit_val c = of_char c - 48"

fun digits_ok :: "string \<Rightarrow> bool" where
  "digits_ok [] = False"
| "digits_ok [c] = is_digit c"
| "digits_ok (c # d # r) =
     (is_digit c \<and> (if d = CHR ''_'' then digits_ok r else digits_ok (d # r)))"

definition digits_val :: "string \<Rightarrow> nat" where
  "digits_val s = foldl (\<lambda>a c. 10 * a + digit_val c) 0 (filter is_digit s)"

definition py_int :: "string \<Rightarrow> int option" where
  "py_int s =
     (case strip s of
        [] \<Rightarrow> None
      | c # r \<Rightarrow>
          if c = CHR ''-'' then (if digits_ok r then Some (- int (digits_val r)) else None)
          else if c = CHR ''+'' then (if digits_ok r then Some (int (digits_val r)) else None)
          else (if digits_ok (c # r) then Some (int (digits_val (c # r))) else None))"

section \<open>The interpreter\<close>

definition parse_dsl :: "string \<Rightarrow> string list" where
  "parse_dsl dsl_string =
     map strip (filter (\<lambda>cmd. strip cmd \<noteq> []) (split_on (CHR 0x0A) dsl_string))"

text \<open>
  \<open>int(n) if n else None\<close> for one side of the slice argument.
\<close>

definition slice_index :: "string \<Rightarrow> error + int option" where
  "slice_index t =
     (if t = [] then Inr None
      else (case py_int t of None \<Rightarrow> Inl (IntLiteralError t) | Some i \<Rightarrow> Inr (Some i)))"

text \<open>
  One turn of the loop of \<open>interpret_dsl\<close>. \<open>float\<close> is Python's builtin of that
  name, a parameter of the model: \<open>None\<close> where it raises \<open>ValueError\<close>, the float
  it returns otherwise. A missing \<open>parts[1]\<close> or \<open>parts[2]\<close> is an
  \<open>IndexError\<close>; an argument of \<open>slice\<close> that does not split at \<open>:\<close> into two
  pieces fails to unpack.
\<close>

definition run_command ::
  "(string \<Rightarrow> logit option) \<Rightarrow> logit list \<Rightarrow> string \<Rightarrow> error + logit list" where
  "run_command float logits command =
     (case split_ws command of
        [] \<Rightarrow> Inl IndexError
      | cmd # args \<Rightarrow>
          if cmd = ''sort'' then
            sort_logits logits (case args of [] \<Rightarrow> ''-'' | order # _ \<Rightarrow> order)
          else if cmd = ''slice'' then
            (case args of
               [] \<Rightarrow> Inl IndexError
             | a # _ \<Rightarrow>
                 (case split_on (CHR '':'') a of
                    [n, m] \<Rightarrow>
                      (case slice_index n of
                         Inl e \<Rightarrow> Inl e
                       | Inr n' \<Rightarrow>
                           (case slice_index m of
                              Inl e \<Rightarrow> Inl e
                            | Inr m' \<Rightarrow> slice_logits logits n' m'))
                  | ps \<Rightarrow> Inl (UnpackError (length ps))))
          else if cmd = ''threshold'' then
            (case args of
               op # v # _ \<Rightarrow>
                 (case float v of
                    None \<Rightarrow> Inl (FloatLiteralError v)
                  | Some x \<Rightarrow> threshold_logits logits op x)
             | _ \<Rightarrow> Inl IndexError)
          else Inl (UnknownCommand cmd))"

text \<open>The \<open>for\<close> loop: the first command that raises ends the run.\<close>

fun run_commands ::
  "(string \<Rightarrow> logit option) \<Rightarrow> logit list \<Rightarrow> string list \<Rightarrow> error + logit list" where
  "run_commands float logits [] = Inr logits"
| "run_commands float logits (command # commands) =
     (case run_command float logits command of
        Inl e \<Rightarrow> Inl e
      | Inr logits' \<Rightarrow> run_commands float logits' commands)"

definition interpret_dsl ::
  "(string \<Rightarrow> logit option) \<Rightarrow> logit list \<Rightarrow> string \<Rightarrow> error + logit list" where
  "interpret_dsl float logits dsl_string = run_commands float logits (parse_dsl dsl_string)"

section \<open>Program texts and errors, as the specification names them\<close>

text \<open>
  \<open>str(k)\<close> of a natural number: the decimal numeral a program text writes for a
  bound, as in \<open>slice :3\<close>.
\<close>

definition digit_char :: "nat \<Rightarrow> char" where
  "digit_char d = ''0123456789'' ! d"

fun dec :: "nat \<Rightarrow> string" where
  "dec n = (if n < 10 then [digit_char n] else dec (n div 10) @ [digit_char (n mod 10)])"

declare dec.simps [simp del]

text \<open>
  The specification has two kinds of error: \<open>RangeError\<close> for the bounds that
  \<open>slice_logits\<close> rejects, and \<open>ParseError\<close> for a malformed keyword, operator,
  argument or literal. The notebook raises \<open>ValueError\<close> for both, and an
  \<open>IndexError\<close> where an argument is missing; the model tells them apart by what was
  raised, and every error but the one for the bounds counts as a parse error.
\<close>

fun is_range_error :: "error \<Rightarrow> bool" where
  "is_range_error (InvalidSliceRange n m len) = True"
| "is_range_error e = False"

definition is_parse_error :: "error \<Rightarrow> bool" where
  "is_parse_error e = (\<not> is_range_error e)"

text \<open>
  A malformed line, in the ways the specification lists: an unknown keyword, a sort
  order other than \<open>+\<close> and \<open>-\<close>, a slice argument that is not
  \<open><int-or-empty>:<int-or-empty>\<close>, a threshold operator other than the four, a
  threshold value that is no float literal. A missing argument of \<open>slice\<close> or
  \<open>threshold\<close> counts as malformed.
\<close>

definition slice_arg_ok :: "string \<Rightarrow> bool" where
  "slice_arg_ok a =
     (case split_on (CHR '':'') a of
        [n, m] \<Rightarrow> (n = [] \<or> py_int n \<noteq> None) \<and> (m = [] \<or> py_int m \<noteq> None)
      | ps \<Rightarrow> False)"

definition operator_ok :: "string \<Rightarrow> bool" where
  "operator_ok op = (op = ''<'' \<or> op = ''>'' \<or> op = ''<='' \<or> op = ''>='')"

definition malformed :: "(string \<Rightarrow> logit option) \<Rightarrow> string \<Rightarrow> bool" where
  "malformed float line =
     (case split_ws line of
        [] \<Rightarrow> False
      | kw # args \<Rightarrow>
          if kw = ''sort'' then
            (case args of [] \<Rightarrow> False | order # rest \<Rightarrow> order \<noteq> ''+'' \<and> order \<noteq> ''-'')
          else if kw = ''slice'' then
            (case args of [] \<Rightarrow> True | a # rest \<Rightarrow> \<not> slice_arg_ok a)
          else if kw = ''threshold'' then
            (case args of
               op # v # rest \<Rightarrow> \<not> operator_ok op \<or> float v = None
             | short \<Rightarrow> True)
          else True)"

section \<open>The sort order\<close>

lemma np_le_refl: "np_le a a"
  by (cases a) (auto simp: np_le_def)

lemma np_le_total: "np_le a b \<or> np_le b a"
  by (cases a; cases b) (auto simp: np_le_def)

lemma np_le_trans: "np_le a b \<Longrightarrow> np_le b c \<Longrightarrow> np_le a c"
  by (cases a; cases b; cases c) (auto simp: np_le_def)

lemma np_le_antisym: "np_le a b \<Longrightarrow> np_le b a \<Longrightarrow> a = b"
  by (cases a; cases b) (auto simp: np_le_def)

lemma np_le_NegInf: "np_le NegInf a"
  by (cases a) (auto simp: np_le_def)

lemma np_le_NegInf_iff: "np_le a NegInf \<longleftrightarrow> a = NegInf"
  by (cases a) (auto simp: np_le_def)

text \<open>Where the sort order puts \<open>b\<close> first, the float comparison never says \<open>a < b\<close>.\<close>

lemma np_le_not_fl_lt: "np_le b a \<Longrightarrow> \<not> fl_lt a b"
  by (cases a; cases b) (auto simp: np_le_def fl_lt_def)

lemma mset_np_insert: "mset (np_insert x ys) = add_mset x (mset ys)"
  by (induction ys) auto

lemma mset_np_sort: "mset (np_sort xs) = mset xs"
  by (induction xs) (auto simp: np_sort_def mset_np_insert)

lemma set_np_insert: "set (np_insert x ys) = insert x (set ys)"
  by (induction ys) auto

lemma sorted_np_insert: "sorted_wrt np_le ys \<Longrightarrow> sorted_wrt np_le (np_insert x ys)"
proof (induction ys)
  case Nil
  then show ?case by simp
next
  case (Cons y ys)
  show ?case
  proof (cases "np_le x y")
    case True
    with Cons.prems show ?thesis
      by (auto intro: np_le_trans)
  next
    case False
    then have "np_le y x" using np_le_total by blast
    with False Cons show ?thesis
      by (auto simp: set_np_insert)
  qed
qed

lemma sorted_np_sort: "sorted_wrt np_le (np_sort xs)"
  by (induction xs) (auto simp: np_sort_def sorted_np_insert)

lemma length_np_sort: "length (np_sort xs) = length xs"
  using mset_np_sort [of xs] by (metis size_mset)

lemma sorted_rev_np_sort: "sorted_wrt (\<lambda>a b. np_le b a) (rev (np_sort xs))"
  by (simp add: sorted_wrt_rev sorted_np_sort)

lemma sorted_np_le_unique:
  "sorted_wrt np_le xs \<Longrightarrow> sorted_wrt np_le ys \<Longrightarrow> mset xs = mset ys \<Longrightarrow> xs = ys"
proof (induction xs arbitrary: ys)
  case Nil
  then show ?case by simp
next
  case (Cons x xs)
  from Cons.prems(3) obtain y ys' where ys: "ys = y # ys'"
    by (cases ys) auto
  have "x \<in> set ys" using Cons.prems(3) by (metis list.set_intros(1) set_mset_mset)
  with Cons.prems(2) ys have yx: "np_le y x" by (auto simp: np_le_refl)
  have "y \<in> set (x # xs)" using Cons.prems(3) ys by (metis list.set_intros(1) set_mset_mset)
  with Cons.prems(1) have xy: "np_le x y" by (auto simp: np_le_refl)
  from xy yx have eq: "x = y" by (rule np_le_antisym)
  with Cons.prems ys have "xs = ys'" by (intro Cons.IH) auto
  with eq ys show ?case by simp
qed

lemma np_sort_unique: "mset ys = mset xs \<Longrightarrow> sorted_wrt np_le ys \<Longrightarrow> ys = np_sort xs"
  by (rule sorted_np_le_unique) (simp_all add: sorted_np_sort mset_np_sort)

section \<open>Splitting and stripping\<close>

lemma split_where_nonempty: "split_where P s \<noteq> []"
  by (induction s) (auto split: list.splits)

lemma split_where_none: "\<forall>c\<in>set s. \<not> P c \<Longrightarrow> split_where P s = [s]"
  by (induction s) auto

lemma split_where_append:
  "P c \<Longrightarrow> split_where P (a @ c # b) = split_where P a @ split_where P b"
proof (induction a)
  case Nil
  then show ?case by simp
next
  case (Cons x a)
  obtain w ws where w: "split_where P a = w # ws"
    using split_where_nonempty [of P a] by (cases "split_where P a") auto
  with Cons show ?case by simp
qed

lemma concat_split_where: "concat (split_where P s) = filter (\<lambda>c. \<not> P c) s"
proof (induction s)
  case Nil
  then show ?case by simp
next
  case (Cons x s)
  obtain w ws where "split_where P s = w # ws"
    using split_where_nonempty [of P s] by (cases "split_where P s") auto
  with Cons show ?case by auto
qed

lemma split_where_pieces: "w \<in> set (split_where P s) \<Longrightarrow> set w \<subseteq> set s"
proof -
  assume "w \<in> set (split_where P s)"
  then have "set w \<subseteq> set (concat (split_where P s))" by auto
  then show ?thesis by (auto simp: concat_split_where)
qed

lemma split_ws_Nil: "split_ws [] = []"
  by (simp add: split_ws_def)

lemma split_ws_token: "t \<noteq> [] \<Longrightarrow> \<forall>c\<in>set t. \<not> is_space c \<Longrightarrow> split_ws t = [t]"
  by (simp add: split_ws_def split_where_none)

lemma split_ws_append:
  "is_space c \<Longrightarrow> split_ws (a @ c # b) = split_ws a @ split_ws b"
  by (simp add: split_ws_def split_where_append)

lemma split_ws_spaces: "\<forall>c\<in>set s. is_space c \<Longrightarrow> split_ws s = []"
  by (induction s) (auto simp: split_ws_def)

lemma split_ws_dropWhile: "split_ws (dropWhile is_space s) = split_ws s"
  by (induction s) (auto simp: split_ws_def)

lemma split_ws_snoc: "is_space c \<Longrightarrow> split_ws (s @ [c]) = split_ws s"
  using split_ws_append [of c s "[]"] by (simp add: split_ws_Nil)

lemma split_ws_rev_dropWhile: "split_ws (rev (dropWhile is_space r)) = split_ws (rev r)"
  by (induction r) (auto simp: split_ws_snoc)

lemma split_ws_strip: "split_ws (strip s) = split_ws s"
  by (simp add: strip_def split_ws_rev_dropWhile split_ws_dropWhile)

lemma strip_spaces: "\<forall>c\<in>set s. is_space c \<Longrightarrow> strip s = []"
proof -
  assume "\<forall>c\<in>set s. is_space c"
  then have d: "dropWhile is_space s = []" by (induction s) auto
  show ?thesis unfolding strip_def d by simp
qed

lemma strip_id: "s \<noteq> [] \<Longrightarrow> \<not> is_space (hd s) \<Longrightarrow> \<not> is_space (last s) \<Longrightarrow> strip s = s"
proof -
  assume s: "s \<noteq> []" and h: "\<not> is_space (hd s)" and l: "\<not> is_space (last s)"
  from s h have "dropWhile is_space s = s" by (cases s) auto
  moreover from s l have "dropWhile is_space (rev s) = rev s"
    by (cases "rev s") (auto simp: last_rev [symmetric] simp del: last_rev)
  ultimately show ?thesis by (simp add: strip_def)
qed

lemma parse_dsl_append:
  "parse_dsl (a @ CHR 0x0A # b) = parse_dsl a @ parse_dsl b"
  by (simp add: parse_dsl_def split_on_def split_where_append)

lemma parse_dsl_line:
  "\<forall>c\<in>set s. c \<noteq> CHR 0x0A \<Longrightarrow> parse_dsl s = (if strip s = [] then [] else [strip s])"
  by (simp add: parse_dsl_def split_on_def split_where_none)

lemma parse_dsl_spaces: "\<forall>c\<in>set s. is_space c \<Longrightarrow> parse_dsl s = []"
proof -
  assume a: "\<forall>c\<in>set s. is_space c"
  have "strip w = []" if "w \<in> set (split_on (CHR 0x0A) s)" for w
    using that a split_where_pieces [of w "\<lambda>c. c = CHR 0x0A" s]
    by (auto simp: split_on_def intro!: strip_spaces)
  then show ?thesis by (simp add: parse_dsl_def)
qed

section \<open>Lengths\<close>

lemma length_sort_logits: "sort_logits xs order = Inr ys \<Longrightarrow> length ys = length xs"
  by (auto simp: sort_logits_def length_np_sort split: if_splits)

lemma length_set_range: "length (set_range msk n m) = length msk"
  by (simp add: set_range_def)

lemma nth_set_range:
  "i < length msk \<Longrightarrow>
   set_range msk n m ! i =
     (if slice_bound (length msk) n \<le> i \<and> i < slice_bound (length msk) m then True else msk ! i)"
  by (simp add: set_range_def)

lemma slice_bound_valid: "0 \<le> i \<Longrightarrow> i \<le> int len \<Longrightarrow> slice_bound len i = nat i"
  by (auto simp: slice_bound_def)

lemma length_np_where: "length (np_where msk xs v) = min (length msk) (length xs)"
  by (simp add: np_where_def)

lemma nth_np_where:
  "i < length msk \<Longrightarrow> i < length xs \<Longrightarrow> np_where msk xs v ! i = (if msk ! i then xs ! i else v)"
  by (simp add: np_where_def)

lemma slice_logits_ok:
  assumes "0 \<le> n" "n < m" "m \<le> int (length xs)"
    and "n = (case n0 of None \<Rightarrow> 0 | Some i \<Rightarrow> i)"
    and "m = (case m0 of None \<Rightarrow> int (length xs) | Some i \<Rightarrow> i)"
  shows "\<exists>ys. slice_logits xs n0 m0 = Inr ys \<and> length ys = length xs \<and>
           (\<forall>i<length xs. ys ! i = (if n \<le> int i \<and> int i < m then xs ! i else NegInf))"
proof -
  let ?ys = "np_where (set_range (replicate (length xs) False) n m) xs NegInf"
  have r: "slice_logits xs n0 m0 = Inr ?ys"
    using assms by (auto simp: slice_logits_def Let_def)
  have l: "length ?ys = length xs"
    by (simp add: length_np_where length_set_range)
  have bn: "slice_bound (length xs) n = nat n" and bm: "slice_bound (length xs) m = nat m"
    using assms(1-3) by (auto intro!: slice_bound_valid)
  have "?ys ! i = (if n \<le> int i \<and> int i < m then xs ! i else NegInf)" if "i < length xs" for i
    using that assms(1-3)
    by (auto simp: nth_np_where length_set_range nth_set_range bn bm)
  with r l show ?thesis by blast
qed

lemma length_slice_logits: "slice_logits xs n0 m0 = Inr ys \<Longrightarrow> length ys = length xs"
  by (auto simp: slice_logits_def Let_def length_np_where length_set_range split: if_splits)

lemma length_threshold_logits: "threshold_logits xs op v = Inr ys \<Longrightarrow> length ys = length xs"
  by (auto simp: threshold_logits_def split: if_splits)

lemma length_run_command: "run_command float xs c = Inr ys \<Longrightarrow> length ys = length xs"
  unfolding run_command_def
  by (auto split: list.splits if_splits sum.splits option.splits
      dest: length_sort_logits length_slice_logits length_threshold_logits)

lemma length_run_commands: "run_commands float xs cs = Inr ys \<Longrightarrow> length ys = length xs"
proof (induction cs arbitrary: xs)
  case Nil
  then show ?case by simp
next
  case (Cons c cs)
  then show ?case
    by (auto split: sum.splits dest: length_run_command)
qed

text \<open>The definitions a run on a concrete vector and text unfolds.\<close>

lemmas run_defs =
  interpret_dsl_def parse_dsl_def split_on_def strip_def is_space_def run_command_def
  split_ws_def sort_logits_def np_sort_def np_le_def slice_index_def py_int_def
  digits_val_def is_digit_def digit_val_def slice_logits_def np_where_def set_range_def
  slice_bound_def threshold_logits_def fl_lt_def fl_gt_def fl_ge_def

text \<open>
  C4. Whenever the interpretation of a program succeeds, the vector it returns has the
  length of the vector it was given, whatever commands the program is made of.
\<close>

theorem interpret_dsl_length:
  "interpret_dsl float xs prog = Inr ys \<Longrightarrow> length ys = length xs"
  unfolding interpret_dsl_def by (rule length_run_commands)

theorem interpret_dsl_length_witness:
  "interpret_dsl (\<lambda>s. None) [Fin 0.1, Fin 2.3, Fin 1.1, Fin 0.7, Fin (- 1)]
     ''sort\<newline>slice :3'' = Inr [Fin 2.3, Fin 1.1, Fin 0.7, NegInf, NegInf]
   \<and> length [Fin 2.3, Fin 1.1, Fin 0.7, NegInf, NegInf]
       = length [Fin 0.1, Fin 2.3, Fin 1.1, Fin 0.7, Fin (- 1)]"
proof -
  have h: "interpret_dsl (\<lambda>s. None) [Fin 0.1, Fin 2.3, Fin 1.1, Fin 0.7, Fin (- 1)]
     ''sort\<newline>slice :3'' = Inr [Fin 2.3, Fin 1.1, Fin 0.7, NegInf, NegInf]"
    by (simp add: run_defs)
  show ?thesis using h interpret_dsl_length [OF h] by simp
qed

section \<open>Range masking\<close>

text \<open>
  C3. With an omitted start read as 0 and an omitted end as the length N,
  \<open>slice_logits\<close> fails with the range error that names the bounds and N exactly when
  the start is negative, the end exceeds N, or the start is not below the end; otherwise
  it returns a vector of length N that keeps the entries at the positions from start up
  to, not including, end, and has negative infinity everywhere else.
\<close>

theorem slice_logits_range:
  assumes "n = (case n0 of None \<Rightarrow> 0 | Some i \<Rightarrow> i)"
    and "m = (case m0 of None \<Rightarrow> int (length xs) | Some i \<Rightarrow> i)"
  shows "(if n < 0 \<or> int (length xs) < m \<or> m \<le> n
          then slice_logits xs n0 m0 = Inl (InvalidSliceRange n m (length xs))
               \<and> is_range_error (InvalidSliceRange n m (length xs))
          else \<exists>ys. slice_logits xs n0 m0 = Inr ys \<and> length ys = length xs \<and>
                 (\<forall>i<length xs. ys ! i = (if n \<le> int i \<and> int i < m then xs ! i else NegInf)))"
proof (cases "n < 0 \<or> int (length xs) < m \<or> m \<le> n")
  case True
  then show ?thesis using assms by (auto simp: slice_logits_def Let_def)
next
  case False
  then have "0 \<le> n" "n < m" "m \<le> int (length xs)" by auto
  from slice_logits_ok [OF this assms] False show ?thesis by simp
qed

theorem slice_logits_range_witness:
  "slice_logits [Fin 5, Fin 6, Fin 7, Fin 8] (Some 1) None = Inr [NegInf, Fin 6, Fin 7, Fin 8]
   \<and> slice_logits [Fin 5, Fin 6, Fin 7, Fin 8] (Some 2) (Some 2) = Inl (InvalidSliceRange 2 2 4)
   \<and> slice_logits [Fin 5, Fin 6, Fin 7, Fin 8] (Some (- 1)) (Some 2) = Inl (InvalidSliceRange (- 1) 2 4)
   \<and> slice_logits [Fin 5, Fin 6, Fin 7, Fin 8] None (Some 5) = Inl (InvalidSliceRange 0 5 4)"
  using slice_logits_range [where n = 1 and ?n0.0 = "Some 1" and m = 4 and ?m0.0 = None
      and xs = "[Fin 5, Fin 6, Fin 7, Fin 8]"]
    slice_logits_range [where n = 2 and ?n0.0 = "Some 2" and m = 2 and ?m0.0 = "Some 2"
      and xs = "[Fin 5, Fin 6, Fin 7, Fin 8]"]
    slice_logits_range [where n = "- 1" and ?n0.0 = "Some (- 1)" and m = 2 and ?m0.0 = "Some 2"
      and xs = "[Fin 5, Fin 6, Fin 7, Fin 8]"]
    slice_logits_range [where n = 0 and ?n0.0 = None and m = 5 and ?m0.0 = "Some 5"
      and xs = "[Fin 5, Fin 6, Fin 7, Fin 8]"]
  by (simp add: run_defs)

section \<open>Programs of one line\<close>

lemma interpret_dsl_line:
  assumes "\<forall>c\<in>set s. c \<noteq> CHR 0x0A" and "strip s \<noteq> []"
  shows "interpret_dsl float xs s = run_command float xs s"
proof -
  have "parse_dsl s = [strip s]"
    using assms by (simp add: parse_dsl_line)
  moreover have "run_command float xs (strip s) = run_command float xs s"
    by (simp add: run_command_def split_ws_strip)
  ultimately show ?thesis
    by (simp add: interpret_dsl_def split: sum.splits)
qed

lemma not_space_not_newline: "\<not> is_space c \<Longrightarrow> c \<noteq> CHR 0x0A"
  by (auto simp: is_space_def)

lemma strip_keyword:
  assumes "k \<noteq> []" and "\<not> is_space (hd k)" and "t \<noteq> []" and "\<forall>c\<in>set t. \<not> is_space c"
  shows "strip (k @ t) = k @ t"
proof (rule strip_id)
  show "k @ t \<noteq> []" using assms by simp
  show "\<not> is_space (hd (k @ t))" using assms by simp
  show "\<not> is_space (last (k @ t))" using assms by simp
qed

lemma interpret_sort_arg:
  assumes "t \<noteq> []" and "\<forall>c\<in>set t. \<not> is_space c"
  shows "interpret_dsl float xs (''sort '' @ t) = sort_logits xs t"
proof -
  have nl: "\<forall>c\<in>set (''sort '' @ t). c \<noteq> CHR 0x0A"
    using assms(2) by (auto dest: not_space_not_newline)
  have "strip (''sort '' @ t) = ''sort '' @ t"
    using assms by (intro strip_keyword) (auto simp: is_space_def)
  then have ne: "strip (''sort '' @ t) \<noteq> []" by simp
  have "split_ws (''sort'' @ CHR '' '' # t) = split_ws ''sort'' @ split_ws t"
    by (rule split_ws_append) (simp add: is_space_def)
  also have "split_ws ''sort'' = [''sort'']"
    by (rule split_ws_token) (auto simp: is_space_def)
  also have "split_ws t = [t]"
    using assms by (rule split_ws_token)
  finally have "split_ws (''sort '' @ t) = [''sort'', t]" by simp
  then have "run_command float xs (''sort '' @ t) = sort_logits xs t"
    by (simp add: run_command_def)
  with interpret_dsl_line [OF nl ne] show ?thesis by simp
qed

lemma interpret_sort_default: "interpret_dsl float xs ''sort'' = sort_logits xs ''-''"
  by (simp add: interpret_dsl_def parse_dsl_def split_on_def strip_def is_space_def
      run_command_def split_ws_def split: sum.splits)

section \<open>Sorting\<close>

text \<open>
  C5. \<open>sort -\<close> returns a permutation of the input ordered from largest to smallest and
  \<open>sort +\<close> one ordered from smallest to largest, in the order \<open>np.sort\<close> sorts by (the
  float comparison, with NaN above every other value); in neither is a later entry
  related to an earlier one by the float comparison the wrong way round. A bare
  \<open>sort\<close> is \<open>sort -\<close>. Any other order fails with the invalid-order error, a parse
  error, in \<open>sort_logits\<close> and as an argument of \<open>sort\<close> in a program.
\<close>

theorem sort_orders:
  "(\<exists>ys. sort_logits xs ''-'' = Inr ys \<and> interpret_dsl float xs ''sort -'' = Inr ys \<and>
        mset ys = mset xs \<and> sorted_wrt (\<lambda>a b. np_le b a) ys \<and>
        sorted_wrt (\<lambda>a b. \<not> fl_lt a b) ys)
   \<and> (\<exists>ys. sort_logits xs ''+'' = Inr ys \<and> interpret_dsl float xs ''sort +'' = Inr ys \<and>
        mset ys = mset xs \<and> sorted_wrt np_le ys \<and> sorted_wrt (\<lambda>a b. \<not> fl_lt b a) ys)
   \<and> interpret_dsl float xs ''sort'' = interpret_dsl float xs ''sort -''
   \<and> (order \<noteq> ''+'' \<and> order \<noteq> ''-'' \<longrightarrow>
        sort_logits xs order = Inl (InvalidOrder order) \<and> is_parse_error (InvalidOrder order) \<and>
        (order \<noteq> [] \<and> (\<forall>c\<in>set order. \<not> is_space c) \<longrightarrow>
           interpret_dsl float xs (''sort '' @ order) = Inl (InvalidOrder order)))"
proof -
  have minus: "interpret_dsl float xs ''sort -'' = sort_logits xs ''-''"
    using interpret_sort_arg [of "''-''" float xs] by (simp add: is_space_def)
  have plus: "interpret_dsl float xs ''sort +'' = sort_logits xs ''+''"
    using interpret_sort_arg [of "''+''" float xs] by (simp add: is_space_def)
  have d1: "sorted_wrt (\<lambda>a b. \<not> fl_lt a b) (rev (np_sort xs))"
    by (rule sorted_wrt_mono_rel [OF _ sorted_rev_np_sort]) (rule np_le_not_fl_lt)
  have a1: "sorted_wrt (\<lambda>a b. \<not> fl_lt b a) (np_sort xs)"
    by (rule sorted_wrt_mono_rel [OF _ sorted_np_sort]) (rule np_le_not_fl_lt)
  have c1: "\<exists>ys. sort_logits xs ''-'' = Inr ys \<and> interpret_dsl float xs ''sort -'' = Inr ys \<and>
        mset ys = mset xs \<and> sorted_wrt (\<lambda>a b. np_le b a) ys \<and>
        sorted_wrt (\<lambda>a b. \<not> fl_lt a b) ys"
    using d1 by (simp add: minus sort_logits_def mset_np_sort sorted_rev_np_sort)
  have c2: "\<exists>ys. sort_logits xs ''+'' = Inr ys \<and> interpret_dsl float xs ''sort +'' = Inr ys \<and>
        mset ys = mset xs \<and> sorted_wrt np_le ys \<and> sorted_wrt (\<lambda>a b. \<not> fl_lt b a) ys"
    using a1 by (simp add: plus sort_logits_def mset_np_sort sorted_np_sort)
  have c3: "interpret_dsl float xs ''sort'' = interpret_dsl float xs ''sort -''"
    by (simp add: minus interpret_sort_default)
  have c4: "order \<noteq> ''+'' \<and> order \<noteq> ''-'' \<longrightarrow>
        sort_logits xs order = Inl (InvalidOrder order) \<and> is_parse_error (InvalidOrder order) \<and>
        (order \<noteq> [] \<and> (\<forall>c\<in>set order. \<not> is_space c) \<longrightarrow>
           interpret_dsl float xs (''sort '' @ order) = Inl (InvalidOrder order))"
    using interpret_sort_arg [of order float xs]
    by (simp add: sort_logits_def is_parse_error_def)
  from c1 c2 c3 c4 show ?thesis by blast
qed

theorem sort_orders_witness:
  "sort_logits [Fin 1, NaN, NegInf, Fin 3] ''-'' = Inr [NaN, Fin 3, Fin 1, NegInf]
   \<and> sort_logits [Fin 1, NaN, NegInf, Fin 3] ''+'' = Inr [NegInf, Fin 1, Fin 3, NaN]
   \<and> interpret_dsl (\<lambda>s. None) [Fin 1, NaN, NegInf, Fin 3] ''sort'' = Inr [NaN, Fin 3, Fin 1, NegInf]
   \<and> sort_logits [Fin 1, NaN, NegInf, Fin 3] ''up'' = Inl (InvalidOrder ''up'')
   \<and> interpret_dsl (\<lambda>s. None) [Fin 1, NaN, NegInf, Fin 3] ''sort up'' = Inl (InvalidOrder ''up'')"
  using sort_orders [of "[Fin 1, NaN, NegInf, Fin 3]" "\<lambda>s. None" "''up''"]
  by (simp add: sort_logits_def np_sort_def np_le_def is_space_def)

section \<open>Negative infinity under sorting\<close>

lemma NegInf_first:
  assumes "sorted_wrt np_le ys" and "i < length ys" and "j < length ys"
    and "ys ! i = NegInf" and "ys ! j \<noteq> NegInf"
  shows "i < j"
proof (rule ccontr)
  assume "\<not> i < j"
  with assms(4,5) have "j < i" by (cases "i = j") auto
  with assms(1,2) have "np_le (ys ! j) (ys ! i)"
    by (simp add: sorted_wrt_iff_nth_less)
  with assms(4,5) show False by (simp add: np_le_NegInf_iff)
qed

lemma NegInf_last:
  assumes "sorted_wrt (\<lambda>a b. np_le b a) ys" and "i < length ys" and "j < length ys"
    and "ys ! i = NegInf" and "ys ! j \<noteq> NegInf"
  shows "j < i"
proof (rule ccontr)
  assume "\<not> j < i"
  with assms(4,5) have "i < j" by (cases "i = j") auto
  with assms(1,3) have "np_le (ys ! j) (ys ! i)"
    by (simp add: sorted_wrt_iff_nth_less)
  with assms(4,5) show False by (simp add: np_le_NegInf_iff)
qed

text \<open>
  C7. In the result of a descending sort every negative-infinity entry stands after
  every entry that is not negative infinity, and in the result of an ascending sort
  before every such entry. So \<open>sort -\<close> followed by \<open>sort +\<close> does not give a masked
  vector back: on the vector of 1 and negative infinity it returns negative infinity
  and 1.
\<close>

theorem sort_places_NegInf:
  "(\<exists>ys. sort_logits xs ''-'' = Inr ys \<and>
        (\<forall>i<length ys. \<forall>j<length ys. ys ! i = NegInf \<and> ys ! j \<noteq> NegInf \<longrightarrow> j < i))
   \<and> (\<exists>ys. sort_logits xs ''+'' = Inr ys \<and>
        (\<forall>i<length ys. \<forall>j<length ys. ys ! i = NegInf \<and> ys ! j \<noteq> NegInf \<longrightarrow> i < j))
   \<and> interpret_dsl float [Fin 1, NegInf] ''sort -\<newline>sort +'' = Inr [NegInf, Fin 1]"
proof -
  have "\<forall>i<length (rev (np_sort xs)). \<forall>j<length (rev (np_sort xs)).
          rev (np_sort xs) ! i = NegInf \<and> rev (np_sort xs) ! j \<noteq> NegInf \<longrightarrow> j < i"
    using NegInf_last [OF sorted_rev_np_sort] by blast
  moreover have "\<forall>i<length (np_sort xs). \<forall>j<length (np_sort xs).
          np_sort xs ! i = NegInf \<and> np_sort xs ! j \<noteq> NegInf \<longrightarrow> i < j"
    using NegInf_first [OF sorted_np_sort] by blast
  moreover have "interpret_dsl float [Fin 1, NegInf] ''sort -\<newline>sort +'' = Inr [NegInf, Fin 1]"
    by (simp add: interpret_dsl_def parse_dsl_def split_on_def strip_def is_space_def
        run_command_def split_ws_def sort_logits_def np_sort_def np_le_def)
  ultimately show ?thesis by (simp add: sort_logits_def)
qed

theorem sort_places_NegInf_witness:
  "sort_logits [NegInf, Fin 2, NegInf, PosInf, Fin 1] ''-'' = Inr [PosInf, Fin 2, Fin 1, NegInf, NegInf]
   \<and> sort_logits [NegInf, Fin 2, NegInf, PosInf, Fin 1] ''+'' = Inr [NegInf, NegInf, Fin 1, Fin 2, PosInf]
   \<and> interpret_dsl (\<lambda>s. None) [Fin 1, NegInf] ''sort -\<newline>sort +'' = Inr [NegInf, Fin 1]"
  using sort_places_NegInf [of "[NegInf, Fin 2, NegInf, PosInf, Fin 1]" "\<lambda>s. None"]
  by (simp add: sort_logits_def np_sort_def np_le_def)

section \<open>Masking is monotone\<close>

text \<open>A vector that agrees with another or has negative infinity, position by position.\<close>

lemma masked_unmasked_subset:
  "length ys = length xs \<Longrightarrow> \<forall>i<length xs. ys ! i = xs ! i \<or> ys ! i = NegInf \<Longrightarrow>
   mset (filter (\<lambda>v. v \<noteq> NegInf) ys) \<subseteq># mset (filter (\<lambda>v. v \<noteq> NegInf) xs)"
proof (induction ys xs rule: list_induct2)
  case Nil
  then show ?case by simp
next
  case (Cons y ys x xs)
  from Cons.prems have h: "y = x \<or> y = NegInf" by auto
  from Cons.prems have "\<forall>i<length xs. ys ! i = xs ! i \<or> ys ! i = NegInf" by auto
  then have ih: "mset (filter (\<lambda>v. v \<noteq> NegInf) ys) \<subseteq># mset (filter (\<lambda>v. v \<noteq> NegInf) xs)"
    by (rule Cons.IH)
  show ?case
  proof (cases "y = NegInf")
    case True
    with ih show ?thesis
      by (cases "x = NegInf") (auto intro: subset_mset.order_trans)
  next
    case False
    with h ih show ?thesis by auto
  qed
qed

lemma masked_keeps_NegInf:
  "\<forall>i<length xs. ys ! i = xs ! i \<or> ys ! i = NegInf \<Longrightarrow>
   \<forall>i<length xs. xs ! i = NegInf \<longrightarrow> ys ! i = NegInf"
  by auto

lemma slice_logits_masks:
  assumes "slice_logits xs n0 m0 = Inr ys"
  shows "length ys = length xs \<and> (\<forall>i<length xs. ys ! i = xs ! i \<or> ys ! i = NegInf)"
proof -
  define n where "n = (case n0 of None \<Rightarrow> 0 | Some i \<Rightarrow> i)"
  define m where "m = (case m0 of None \<Rightarrow> int (length xs) | Some i \<Rightarrow> i)"
  from assms have ok: "0 \<le> n" "n < m" "m \<le> int (length xs)"
    by (auto simp: slice_logits_def Let_def n_def m_def split: if_splits)
  from slice_logits_ok [OF ok n_def m_def] assms show ?thesis by auto
qed

lemma threshold_logits_masks:
  assumes "threshold_logits xs op p = Inr ys"
  shows "length ys = length xs \<and> (\<forall>i<length xs. ys ! i = xs ! i \<or> ys ! i = NegInf)"
  using assms by (auto simp: threshold_logits_def split: if_splits)

lemma sort_logits_mset: "sort_logits xs order = Inr ys \<Longrightarrow> mset ys = mset xs"
  by (auto simp: sort_logits_def mset_np_sort split: if_splits)

lemma sort_logits_unmasked:
  assumes "sort_logits xs order = Inr ys"
  shows "mset (filter (\<lambda>v. v \<noteq> NegInf) ys) = mset (filter (\<lambda>v. v \<noteq> NegInf) xs)"
  using sort_logits_mset [OF assms] by (simp add: mset_filter)

lemma run_command_unmasked:
  assumes "run_command float xs c = Inr ys"
  shows "mset (filter (\<lambda>v. v \<noteq> NegInf) ys) \<subseteq># mset (filter (\<lambda>v. v \<noteq> NegInf) xs)"
proof -
  from assms consider
    (sort) order where "sort_logits xs order = Inr ys"
  | (slice) n m where "slice_logits xs n m = Inr ys"
  | (threshold) op p where "threshold_logits xs op p = Inr ys"
    unfolding run_command_def
    by (auto split: list.splits if_splits sum.splits option.splits)
  then show ?thesis
  proof cases
    case sort
    from sort_logits_unmasked [OF this] show ?thesis by simp
  next
    case slice
    from slice_logits_masks [OF this] show ?thesis by (blast intro: masked_unmasked_subset)
  next
    case threshold
    from threshold_logits_masks [OF this] show ?thesis by (blast intro: masked_unmasked_subset)
  qed
qed

lemma run_commands_unmasked:
  "run_commands float xs cs = Inr ys \<Longrightarrow>
   mset (filter (\<lambda>v. v \<noteq> NegInf) ys) \<subseteq># mset (filter (\<lambda>v. v \<noteq> NegInf) xs)"
proof (induction cs arbitrary: xs)
  case Nil
  then show ?case by simp
next
  case (Cons c cs)
  then obtain zs where z: "run_command float xs c = Inr zs" and r: "run_commands float zs cs = Inr ys"
    by (auto split: sum.splits)
  from run_command_unmasked [OF z] Cons.IH [OF r] show ?case
    by (rule subset_mset.order_trans [rotated])
qed

text \<open>
  C10. Whenever one of the three primitives succeeds, the entries of its result that
  are not negative infinity form, as a multiset, a part of the entries of its input that
  are not negative infinity; \<open>slice_logits\<close> and \<open>threshold_logits\<close> moreover leave
  negative infinity wherever the input has it. The same holds from the input to the
  result of a whole program, so an excluded value stays excluded.
\<close>

theorem masking_monotone:
  "(sort_logits xs order = Inr ys \<longrightarrow>
      mset (filter (\<lambda>v. v \<noteq> NegInf) ys) \<subseteq># mset (filter (\<lambda>v. v \<noteq> NegInf) xs))
   \<and> (slice_logits xs n m = Inr ys \<longrightarrow>
      mset (filter (\<lambda>v. v \<noteq> NegInf) ys) \<subseteq># mset (filter (\<lambda>v. v \<noteq> NegInf) xs) \<and>
      (\<forall>i<length xs. xs ! i = NegInf \<longrightarrow> ys ! i = NegInf))
   \<and> (threshold_logits xs op p = Inr ys \<longrightarrow>
      mset (filter (\<lambda>v. v \<noteq> NegInf) ys) \<subseteq># mset (filter (\<lambda>v. v \<noteq> NegInf) xs) \<and>
      (\<forall>i<length xs. xs ! i = NegInf \<longrightarrow> ys ! i = NegInf))
   \<and> (interpret_dsl float xs prog = Inr ys \<longrightarrow>
      mset (filter (\<lambda>v. v \<noteq> NegInf) ys) \<subseteq># mset (filter (\<lambda>v. v \<noteq> NegInf) xs))"
proof -
  have a: "sort_logits xs order = Inr ys \<longrightarrow>
      mset (filter (\<lambda>v. v \<noteq> NegInf) ys) \<subseteq># mset (filter (\<lambda>v. v \<noteq> NegInf) xs)"
    using sort_logits_unmasked [of xs order ys] by auto
  have b: "slice_logits xs n m = Inr ys \<longrightarrow>
      mset (filter (\<lambda>v. v \<noteq> NegInf) ys) \<subseteq># mset (filter (\<lambda>v. v \<noteq> NegInf) xs) \<and>
      (\<forall>i<length xs. xs ! i = NegInf \<longrightarrow> ys ! i = NegInf)"
    using slice_logits_masks [of xs n m ys] masked_unmasked_subset [of ys xs]
      masked_keeps_NegInf [of xs ys] by blast
  have c: "threshold_logits xs op p = Inr ys \<longrightarrow>
      mset (filter (\<lambda>v. v \<noteq> NegInf) ys) \<subseteq># mset (filter (\<lambda>v. v \<noteq> NegInf) xs) \<and>
      (\<forall>i<length xs. xs ! i = NegInf \<longrightarrow> ys ! i = NegInf)"
    using threshold_logits_masks [of xs op p ys] masked_unmasked_subset [of ys xs]
      masked_keeps_NegInf [of xs ys] by blast
  have d: "interpret_dsl float xs prog = Inr ys \<longrightarrow>
      mset (filter (\<lambda>v. v \<noteq> NegInf) ys) \<subseteq># mset (filter (\<lambda>v. v \<noteq> NegInf) xs)"
    unfolding interpret_dsl_def by (blast intro: run_commands_unmasked)
  from a b c d show ?thesis by blast
qed

theorem masking_monotone_witness:
  "sort_logits [Fin 1, NegInf, Fin 3] ''-'' = Inr [Fin 3, Fin 1, NegInf]
   \<and> mset (filter (\<lambda>v. v \<noteq> NegInf) [Fin 3, Fin 1, NegInf])
         \<subseteq># mset (filter (\<lambda>v. v \<noteq> NegInf) [Fin 1, NegInf, Fin 3])
   \<and> slice_logits [Fin 1, NegInf, Fin 3] None (Some 2) = Inr [Fin 1, NegInf, NegInf]
   \<and> threshold_logits [Fin 1, NegInf, Fin 3] ''>'' (Fin 2) = Inr [Fin 1, NegInf, NegInf]
   \<and> interpret_dsl (\<lambda>s. None) [Fin 1, NegInf, Fin 3] ''sort +\<newline>slice 0:2'' = Inr [NegInf, Fin 1, NegInf]
   \<and> mset (filter (\<lambda>v. v \<noteq> NegInf) [Fin 1, NegInf, NegInf])
         \<subseteq># mset (filter (\<lambda>v. v \<noteq> NegInf) [Fin 1, NegInf, Fin 3])
   \<and> mset (filter (\<lambda>v. v \<noteq> NegInf) [NegInf, Fin 1, NegInf])
         \<subseteq># mset (filter (\<lambda>v. v \<noteq> NegInf) [Fin 1, NegInf, Fin 3])"
proof -
  have h1: "sort_logits [Fin 1, NegInf, Fin 3] ''-'' = Inr [Fin 3, Fin 1, NegInf]"
    by (simp add: run_defs)
  have h2: "slice_logits [Fin 1, NegInf, Fin 3] None (Some 2) = Inr [Fin 1, NegInf, NegInf]"
    by (simp add: run_defs)
  have h3: "threshold_logits [Fin 1, NegInf, Fin 3] ''>'' (Fin 2) = Inr [Fin 1, NegInf, NegInf]"
    by (simp add: run_defs)
  have h4: "interpret_dsl (\<lambda>s. None) [Fin 1, NegInf, Fin 3] ''sort +\<newline>slice 0:2''
              = Inr [NegInf, Fin 1, NegInf]"
    by (simp add: run_defs)
  from h1 masking_monotone [where xs = "[Fin 1, NegInf, Fin 3]" and order = "''-''"
      and ys = "[Fin 3, Fin 1, NegInf]"]
  have c1: "mset (filter (\<lambda>v. v \<noteq> NegInf) [Fin 3, Fin 1, NegInf])
         \<subseteq># mset (filter (\<lambda>v. v \<noteq> NegInf) [Fin 1, NegInf, Fin 3])"
    by blast
  from h2 h3 masking_monotone [where xs = "[Fin 1, NegInf, Fin 3]" and n = None and m = "Some 2"
      and op = "''>''" and p = "Fin 2" and ys = "[Fin 1, NegInf, NegInf]"]
  have c2: "mset (filter (\<lambda>v. v \<noteq> NegInf) [Fin 1, NegInf, NegInf])
         \<subseteq># mset (filter (\<lambda>v. v \<noteq> NegInf) [Fin 1, NegInf, Fin 3])"
    by blast
  from h4 masking_monotone [where xs = "[Fin 1, NegInf, Fin 3]" and float = "\<lambda>s. None"
      and prog = "''sort +\<newline>slice 0:2''" and ys = "[NegInf, Fin 1, NegInf]"]
  have c3: "mset (filter (\<lambda>v. v \<noteq> NegInf) [NegInf, Fin 1, NegInf])
         \<subseteq># mset (filter (\<lambda>v. v \<noteq> NegInf) [Fin 1, NegInf, Fin 3])"
    by blast
  from h1 h2 h3 h4 c1 c2 c3 show ?thesis by blast
qed

section \<open>Threshold masking\<close>

lemma interpret_threshold_args:
  assumes "op \<noteq> []" and "\<forall>c\<in>set op. \<not> is_space c"
    and "t \<noteq> []" and "\<forall>c\<in>set t. \<not> is_space c"
  shows "interpret_dsl float xs (''threshold '' @ op @ '' '' @ t) =
           (case float t of None \<Rightarrow> Inl (FloatLiteralError t)
            | Some p \<Rightarrow> threshold_logits xs op p)"
proof -
  let ?s = "''threshold '' @ op @ '' '' @ t"
  have sp: "is_space (CHR '' '')" by (simp add: is_space_def)
  have nl: "\<forall>c\<in>set ?s. c \<noteq> CHR 0x0A"
    using assms(2,4) by (auto dest: not_space_not_newline)
  have "strip (''threshold '' @ (op @ '' '' @ t)) = ''threshold '' @ (op @ '' '' @ t)"
  proof (rule strip_id)
    show "\<not> is_space (last (''threshold '' @ (op @ '' '' @ t)))"
      using assms(3,4) by (simp add: last_append)
  qed (simp_all add: is_space_def)
  then have ne: "strip ?s \<noteq> []" by simp
  have "split_ws (''threshold'' @ CHR '' '' # (op @ CHR '' '' # t))
          = split_ws ''threshold'' @ split_ws (op @ CHR '' '' # t)"
    using sp by (rule split_ws_append)
  also have "split_ws ''threshold'' = [''threshold'']"
    by (rule split_ws_token) (auto simp: is_space_def)
  also have "split_ws (op @ CHR '' '' # t) = split_ws op @ split_ws t"
    using sp by (rule split_ws_append)
  also have "split_ws op = [op]"
    using assms(1,2) by (rule split_ws_token)
  also have "split_ws t = [t]"
    using assms(3,4) by (rule split_ws_token)
  finally have "split_ws ?s = [''threshold'', op, t]" by simp
  then have "run_command float xs ?s =
     (case float t of None \<Rightarrow> Inl (FloatLiteralError t) | Some p \<Rightarrow> threshold_logits xs op p)"
    by (simp add: run_command_def)
  with interpret_dsl_line [OF nl ne] show ?thesis by simp
qed

lemma operator_ok_token: "operator_ok op \<Longrightarrow> op \<noteq> [] \<and> (\<forall>c\<in>set op. \<not> is_space c)"
  by (auto simp: operator_ok_def is_space_def)

lemma fl_ge_iff_not_lt: "a \<noteq> NaN \<Longrightarrow> b \<noteq> NaN \<Longrightarrow> fl_ge a b \<longleftrightarrow> \<not> fl_lt a b"
  by (cases a; cases b) (auto simp: fl_ge_def fl_lt_def)

lemma fl_lt_NaN: "\<not> fl_lt NaN b" "\<not> fl_gt NaN b" "\<not> fl_le NaN b" "\<not> fl_ge NaN b"
  by (cases b; simp add: fl_lt_def fl_gt_def fl_ge_def)+

lemma fl_NaN_right: "\<not> fl_lt a NaN" "\<not> fl_gt a NaN" "\<not> fl_le a NaN" "\<not> fl_ge a NaN"
  by (cases a; simp add: fl_lt_def fl_gt_def fl_ge_def)+

text \<open>
  C1 (as amended). For every vector, comparator and threshold \<open>p\<close>, \<open>threshold op p\<close>
  returns a vector of the same length in which exactly the positions whose value
  satisfies the float comparison against \<open>p\<close> hold negative infinity and every other
  position keeps its value. For \<open>threshold < p\<close> the values kept are those with
  \<open>v >= p\<close> as long as neither \<open>v\<close> nor \<open>p\<close> is NaN; a NaN entry is kept by every
  comparator, and a NaN threshold masks nothing. A program line \<open>threshold op t\<close>, where \<open>float\<close> reads \<open>t\<close> as \<open>p\<close>,
  does what \<open>threshold_logits\<close> does with \<open>op\<close> and \<open>p\<close>.
\<close>

theorem threshold_masks:
  "(\<exists>ys. threshold_logits xs ''<'' p = Inr ys \<and> length ys = length xs \<and>
        (\<forall>i<length xs. ys ! i = (if fl_lt (xs ! i) p then NegInf else xs ! i)) \<and>
        (\<forall>i<length xs. xs ! i \<noteq> NaN \<and> p \<noteq> NaN \<longrightarrow>
             ys ! i = (if fl_ge (xs ! i) p then xs ! i else NegInf)))
   \<and> (\<exists>ys. threshold_logits xs ''>'' p = Inr ys \<and> length ys = length xs \<and>
        (\<forall>i<length xs. ys ! i = (if fl_gt (xs ! i) p then NegInf else xs ! i)))
   \<and> (\<exists>ys. threshold_logits xs ''<='' p = Inr ys \<and> length ys = length xs \<and>
        (\<forall>i<length xs. ys ! i = (if fl_le (xs ! i) p then NegInf else xs ! i)))
   \<and> (\<exists>ys. threshold_logits xs ''>='' p = Inr ys \<and> length ys = length xs \<and>
        (\<forall>i<length xs. ys ! i = (if fl_ge (xs ! i) p then NegInf else xs ! i)))
   \<and> (operator_ok op \<longrightarrow>
        (\<exists>ys. threshold_logits xs op p = Inr ys \<and>
           (\<forall>i<length xs. xs ! i = NaN \<longrightarrow> ys ! i = NaN)) \<and>
        threshold_logits xs op NaN = Inr xs \<and>
        (t \<noteq> [] \<and> (\<forall>c\<in>set t. \<not> is_space c) \<and> float t = Some p \<longrightarrow>
           interpret_dsl float xs (''threshold '' @ op @ '' '' @ t) = threshold_logits xs op p))"
proof -
  have nanp: "threshold_logits xs op NaN = Inr xs" if "operator_ok op"
    using that by (auto simp: operator_ok_def threshold_logits_def fl_NaN_right map_idI)
  have lt: "\<exists>ys. threshold_logits xs ''<'' p = Inr ys \<and> length ys = length xs \<and>
        (\<forall>i<length xs. ys ! i = (if fl_lt (xs ! i) p then NegInf else xs ! i)) \<and>
        (\<forall>i<length xs. xs ! i \<noteq> NaN \<and> p \<noteq> NaN \<longrightarrow>
             ys ! i = (if fl_ge (xs ! i) p then xs ! i else NegInf))"
    by (simp add: threshold_logits_def fl_ge_iff_not_lt)
  have gt: "\<exists>ys. threshold_logits xs ''>'' p = Inr ys \<and> length ys = length xs \<and>
        (\<forall>i<length xs. ys ! i = (if fl_gt (xs ! i) p then NegInf else xs ! i))"
    by (simp add: threshold_logits_def)
  have le: "\<exists>ys. threshold_logits xs ''<='' p = Inr ys \<and> length ys = length xs \<and>
        (\<forall>i<length xs. ys ! i = (if fl_le (xs ! i) p then NegInf else xs ! i))"
    by (simp add: threshold_logits_def)
  have ge: "\<exists>ys. threshold_logits xs ''>='' p = Inr ys \<and> length ys = length xs \<and>
        (\<forall>i<length xs. ys ! i = (if fl_ge (xs ! i) p then NegInf else xs ! i))"
    by (simp add: threshold_logits_def)
  have nan: "\<exists>ys. threshold_logits xs op p = Inr ys \<and>
           (\<forall>i<length xs. xs ! i = NaN \<longrightarrow> ys ! i = NaN)" if "operator_ok op"
    using that by (auto simp: operator_ok_def threshold_logits_def fl_lt_NaN)
  have prog: "interpret_dsl float xs (''threshold '' @ op @ '' '' @ t) = threshold_logits xs op p"
    if "operator_ok op" and "t \<noteq> []" and "\<forall>c\<in>set t. \<not> is_space c" and "float t = Some p"
    using interpret_threshold_args [of op t float xs] operator_ok_token [OF that(1)] that(2-4)
    by simp
  from lt gt le ge nan nanp prog show ?thesis by blast
qed

theorem threshold_masks_witness:
  "threshold_logits [Fin 0.1, Fin 2.3, Fin 1.1, Fin 0.7, Fin (- 1)] ''<'' (Fin 1)
     = Inr [NegInf, Fin 2.3, Fin 1.1, NegInf, NegInf]
   \<and> threshold_logits [Fin 0.1, Fin 2.3, NaN, Fin 1, NegInf] ''>='' (Fin 1)
     = Inr [Fin 0.1, NegInf, NaN, NegInf, NegInf]
   \<and> interpret_dsl (\<lambda>s. if s = ''1'' then Some (Fin 1) else None)
         [Fin 0.1, Fin 2.3, Fin 1.1, Fin 0.7, Fin (- 1)] ''threshold < 1''
     = Inr [NegInf, Fin 2.3, Fin 1.1, NegInf, NegInf]"
  using threshold_masks [where xs = "[Fin 0.1, Fin 2.3, Fin 1.1, Fin 0.7, Fin (- 1)]"
      and p = "Fin 1" and op = "''<''" and t = "''1''"
      and float = "\<lambda>s. if s = ''1'' then Some (Fin 1) else None"]
    threshold_masks [where xs = "[Fin 0.1, Fin 2.3, NaN, Fin 1, NegInf]"
      and p = "Fin 1" and op = "''>=''" and t = "''1''"
      and float = "\<lambda>s. if s = ''1'' then Some (Fin 1) else None"]
  by (simp add: threshold_logits_def fl_lt_def fl_ge_def operator_ok_def is_space_def)

text \<open>
  The claim as written fails where NaN stands: \<open>threshold < 1\<close> keeps a NaN entry,
  and NaN is not \<open>>= 1\<close>; and against a NaN threshold it keeps 0, which is not
  \<open>>=\<close> NaN.
\<close>

theorem threshold_keeps_NaN_counterexample:
  "threshold_logits [NaN] ''<'' (Fin 1) = Inr [NaN] \<and> \<not> fl_ge NaN (Fin 1)
   \<and> threshold_logits [Fin 0] ''<'' NaN = Inr [Fin 0] \<and> \<not> fl_ge (Fin 0) NaN"
  by (simp add: threshold_logits_def fl_lt_def fl_ge_def)

section \<open>Blank lines\<close>

lemma run_commands_append:
  "run_commands float xs (cs @ ds) =
     (case run_commands float xs cs of Inl e \<Rightarrow> Inl e | Inr ys \<Rightarrow> run_commands float ys ds)"
  by (induction cs arbitrary: xs) (auto split: sum.splits)

lemma interpret_dsl_append:
  "interpret_dsl float xs (a @ CHR 0x0A # b) =
     (case interpret_dsl float xs a of Inl e \<Rightarrow> Inl e | Inr ys \<Rightarrow> interpret_dsl float ys b)"
  by (simp add: interpret_dsl_def parse_dsl_append run_commands_append split: sum.splits)

text \<open>
  C8. A program text made of whitespace only (the empty text, blanks, newlines) returns
  the input vector unchanged. Blank lines carry no meaning: a whitespace-only line put
  between two parts of a program, before a program or after it leaves the result as it
  is, whether the program succeeds or fails.
\<close>

theorem blank_lines_ignored:
  "((\<forall>c\<in>set w. is_space c) \<longrightarrow>
        interpret_dsl float xs w = Inr xs
      \<and> interpret_dsl float xs (a @ ''\<newline>'' @ w @ ''\<newline>'' @ b) = interpret_dsl float xs (a @ ''\<newline>'' @ b)
      \<and> interpret_dsl float xs (w @ ''\<newline>'' @ b) = interpret_dsl float xs b
      \<and> interpret_dsl float xs (a @ ''\<newline>'' @ w) = interpret_dsl float xs a)
   \<and> interpret_dsl float xs [] = Inr xs"
proof -
  have e: "parse_dsl [] = []"
    by (rule parse_dsl_spaces) simp
  have "parse_dsl (a @ CHR 0x0A # w @ CHR 0x0A # b) = parse_dsl (a @ CHR 0x0A # b)
      \<and> parse_dsl w = []
      \<and> parse_dsl (w @ CHR 0x0A # b) = parse_dsl b
      \<and> parse_dsl (a @ CHR 0x0A # w) = parse_dsl a"
    if "\<forall>c\<in>set w. is_space c"
    using parse_dsl_spaces [OF that] by (simp add: parse_dsl_append)
  with e show ?thesis by (simp add: interpret_dsl_def)
qed

theorem blank_lines_ignored_witness:
  "interpret_dsl (\<lambda>s. None) [Fin 1, Fin 3, Fin 2] '' \<newline>  '' = Inr [Fin 1, Fin 3, Fin 2]
   \<and> interpret_dsl (\<lambda>s. None) [Fin 1, Fin 3, Fin 2] ''sort\<newline> \<newline>  \<newline>slice :2''
       = interpret_dsl (\<lambda>s. None) [Fin 1, Fin 3, Fin 2] ''sort\<newline>slice :2''
   \<and> interpret_dsl (\<lambda>s. None) [Fin 1, Fin 3, Fin 2] ''sort\<newline>slice :2'' = Inr [Fin 3, Fin 2, NegInf]"
proof -
  have sp: "\<forall>c\<in>set '' \<newline>  ''. is_space c" by (simp add: is_space_def)
  have r: "interpret_dsl (\<lambda>s. None) [Fin 1, Fin 3, Fin 2] ''sort\<newline>slice :2'' = Inr [Fin 3, Fin 2, NegInf]"
    by (simp add: run_defs)
  from sp r blank_lines_ignored [where w = "'' \<newline>  ''" and a = "''sort''" and b = "''slice :2''"
      and float = "\<lambda>s. None" and xs = "[Fin 1, Fin 3, Fin 2]"]
  show ?thesis by simp
qed

section \<open>Extra tokens\<close>

lemmas line_defs =
  interpret_dsl_def parse_dsl_def split_on_def strip_def is_space_def run_command_def
  split_ws_def slice_index_def py_int_def digits_val_def is_digit_def digit_val_def

text \<open>
  C9. Tokens of a command line beyond those the command reads are ignored. \<open>sort - x\<close>
  is interpreted as \<open>sort -\<close>, \<open>slice 0:3 x\<close> as \<open>slice 0:3\<close> and
  \<open>threshold < 1 x\<close> as \<open>threshold < 1\<close>, on every vector; and in general a line
  whose tokens start with \<open>sort\<close> and one argument, \<open>slice\<close> and one argument, or
  \<open>threshold\<close> and two arguments runs as the line that has these tokens only.
\<close>

theorem extra_tokens_ignored:
  "interpret_dsl float xs ''sort - x'' = interpret_dsl float xs ''sort -''
   \<and> interpret_dsl float xs ''slice 0:3 x'' = interpret_dsl float xs ''slice 0:3''
   \<and> interpret_dsl float xs ''threshold < 1 x'' = interpret_dsl float xs ''threshold < 1''
   \<and> (split_ws c = ''sort'' # a # rest \<and> split_ws c' = [''sort'', a] \<longrightarrow>
        run_command float xs c = run_command float xs c')
   \<and> (split_ws c = ''slice'' # a # rest \<and> split_ws c' = [''slice'', a] \<longrightarrow>
        run_command float xs c = run_command float xs c')
   \<and> (split_ws c = ''threshold'' # a # b # rest \<and> split_ws c' = [''threshold'', a, b] \<longrightarrow>
        run_command float xs c = run_command float xs c')"
proof -
  have 1: "interpret_dsl float xs ''sort - x'' = interpret_dsl float xs ''sort -''"
    by (simp add: line_defs)
  have 2: "interpret_dsl float xs ''slice 0:3 x'' = interpret_dsl float xs ''slice 0:3''"
    by (simp add: line_defs)
  have 3: "interpret_dsl float xs ''threshold < 1 x'' = interpret_dsl float xs ''threshold < 1''"
    by (simp add: line_defs)
  have 4: "split_ws c = ''sort'' # a # rest \<and> split_ws c' = [''sort'', a] \<longrightarrow>
        run_command float xs c = run_command float xs c'"
    by (simp add: run_command_def)
  have 5: "split_ws c = ''slice'' # a # rest \<and> split_ws c' = [''slice'', a] \<longrightarrow>
        run_command float xs c = run_command float xs c'"
    by (simp add: run_command_def)
  have 6: "split_ws c = ''threshold'' # a # b # rest \<and> split_ws c' = [''threshold'', a, b] \<longrightarrow>
        run_command float xs c = run_command float xs c'"
    by (simp add: run_command_def)
  from 1 2 3 4 5 6 show ?thesis by blast
qed

theorem extra_tokens_ignored_witness:
  "interpret_dsl (\<lambda>s. if s = ''1'' then Some (Fin 1) else None) [Fin 1, Fin 3, Fin 2, Fin 0] ''sort - x''
     = Inr [Fin 3, Fin 2, Fin 1, Fin 0]
   \<and> interpret_dsl (\<lambda>s. if s = ''1'' then Some (Fin 1) else None) [Fin 1, Fin 3, Fin 2, Fin 0] ''slice 0:3 x''
     = Inr [Fin 1, Fin 3, Fin 2, NegInf]
   \<and> interpret_dsl (\<lambda>s. if s = ''1'' then Some (Fin 1) else None) [Fin 1, Fin 3, Fin 2, Fin 0] ''threshold < 1 x''
     = Inr [Fin 1, Fin 3, Fin 2, NegInf]
   \<and> run_command (\<lambda>s. if s = ''1'' then Some (Fin 1) else None) [Fin 1, Fin 3, Fin 2, Fin 0] ''threshold >= 1 or so''
     = run_command (\<lambda>s. if s = ''1'' then Some (Fin 1) else None) [Fin 1, Fin 3, Fin 2, Fin 0] ''threshold >= 1''"
proof -
  let ?f = "\<lambda>s. if s = ''1'' then Some (Fin 1) else None"
  let ?xs = "[Fin 1, Fin 3, Fin 2, Fin 0]"
  have a: "interpret_dsl ?f ?xs ''sort -'' = Inr [Fin 3, Fin 2, Fin 1, Fin 0]"
    by (simp add: run_defs)
  have b: "interpret_dsl ?f ?xs ''slice 0:3'' = Inr [Fin 1, Fin 3, Fin 2, NegInf]"
    by (simp add: run_defs)
  have c: "interpret_dsl ?f ?xs ''threshold < 1'' = Inr [Fin 1, Fin 3, Fin 2, NegInf]"
    by (simp add: run_defs)
  have d: "split_ws ''threshold >= 1 or so'' = ''threshold'' # ''>='' # ''1'' # [''or'', ''so'']
       \<and> split_ws ''threshold >= 1'' = [''threshold'', ''>='', ''1'']"
    by (simp add: split_ws_def is_space_def)
  from a b c d extra_tokens_ignored [where float = ?f and xs = ?xs
      and c = "''threshold >= 1 or so''" and c' = "''threshold >= 1''"
      and a = "''>=''" and b = "''1''" and rest = "[''or'', ''so'']"]
  show ?thesis by simp
qed

section \<open>Malformed lines\<close>

lemma slice_arg_fails:
  assumes "\<not> slice_arg_ok a"
  shows "\<exists>e. is_parse_error e \<and>
           (\<forall>zs. (case split_on (CHR '':'') a of
                     [n, m] \<Rightarrow>
                       (case slice_index n of
                          Inl e \<Rightarrow> Inl e
                        | Inr n' \<Rightarrow>
                            (case slice_index m of
                               Inl e \<Rightarrow> Inl e
                             | Inr m' \<Rightarrow> slice_logits zs n' m'))
                   | ps \<Rightarrow> Inl (UnpackError (length ps))) = Inl e)"
proof (cases "\<exists>n m. split_on (CHR '':'') a = [n, m]")
  case True
  then obtain n m where s: "split_on (CHR '':'') a = [n, m]" by blast
  with assms have bad: "(n \<noteq> [] \<and> py_int n = None) \<or> (m \<noteq> [] \<and> py_int m = None)"
    by (simp add: slice_arg_ok_def)
  show ?thesis
  proof (cases "n \<noteq> [] \<and> py_int n = None")
    case True
    then have "slice_index n = Inl (IntLiteralError n)" by (simp add: slice_index_def)
    then show ?thesis by (simp add: s is_parse_error_def)
  next
    case False
    then have "\<exists>n'. slice_index n = Inr n'"
      by (cases "py_int n") (auto simp: slice_index_def)
    then obtain n' where n': "slice_index n = Inr n'" by blast
    from False bad have "m \<noteq> []" and "py_int m = None" by auto
    then have "slice_index m = Inl (IntLiteralError m)" by (simp add: slice_index_def)
    with n' show ?thesis by (simp add: s is_parse_error_def)
  qed
next
  case False
  then have "(case split_on (CHR '':'') a of
                     [n, m] \<Rightarrow>
                       (case slice_index n of
                          Inl e \<Rightarrow> Inl e
                        | Inr n' \<Rightarrow>
                            (case slice_index m of
                               Inl e \<Rightarrow> Inl e
                             | Inr m' \<Rightarrow> slice_logits zs n' m'))
                   | ps \<Rightarrow> Inl (UnpackError (length ps)))
             = Inl (UnpackError (length (split_on (CHR '':'') a)))" for zs
    by (auto split: list.splits)
  then show ?thesis by (simp add: is_parse_error_def)
qed

lemma malformed_fails:
  assumes "malformed float l"
  shows "\<exists>e. is_parse_error e \<and> (\<forall>zs. run_command float zs l = Inl e)"
proof (cases "split_ws l")
  case Nil
  with assms show ?thesis by (simp add: malformed_def)
next
  case (Cons kw args)
  consider (sort) "kw = ''sort''" | (slice) "kw = ''slice''" | (threshold) "kw = ''threshold''"
    | (other) "kw \<noteq> ''sort''" "kw \<noteq> ''slice''" "kw \<noteq> ''threshold''"
    by blast
  then show ?thesis
  proof cases
    case sort
    with assms Cons show ?thesis
      by (auto simp: malformed_def run_command_def sort_logits_def is_parse_error_def
          split: list.splits)
  next
    case slice
    show ?thesis
    proof (cases args)
      case Nil
      with slice Cons show ?thesis
        by (auto simp: run_command_def is_parse_error_def)
    next
      case (Cons a rest)
      with assms slice \<open>split_ws l = kw # args\<close> have "\<not> slice_arg_ok a"
        by (simp add: malformed_def)
      from slice_arg_fails [OF this] Cons slice \<open>split_ws l = kw # args\<close> show ?thesis
        by (simp add: run_command_def)
    qed
  next
    case threshold
    show ?thesis
    proof (cases "\<exists>op v rest. args = op # v # rest")
      case True
      then obtain op v rest where a: "args = op # v # rest" by blast
      show ?thesis
      proof (cases "float v")
        case None
        with a threshold Cons show ?thesis
          by (simp add: run_command_def is_parse_error_def)
      next
        case (Some p)
        with assms a threshold Cons have "\<not> operator_ok op"
          by (simp add: malformed_def)
        then have "threshold_logits zs op p = Inl (InvalidOperator op)" for zs
          by (simp add: threshold_logits_def operator_ok_def)
        with Some a threshold Cons show ?thesis
          by (simp add: run_command_def is_parse_error_def)
      qed
    next
      case False
      then have "run_command float zs l = Inl IndexError" for zs
        using threshold Cons by (auto simp: run_command_def split: list.splits)
      then show ?thesis by (simp add: is_parse_error_def)
    qed
  next
    case other
    with Cons show ?thesis
      by (auto simp: run_command_def is_parse_error_def)
  qed
qed

text \<open>
  C6 (as amended). A program with a malformed line fails on every input vector and
  returns no vector. The lines are read one at a time as the loop reaches them: when
  every line before the first malformed one succeeds on the vector, the run ends with
  the parse error of that line, the same on every vector; when a line before it fails,
  the run ends with the error of that line.
\<close>

theorem malformed_line_fails:
  assumes "parse_dsl prog = pre @ l # post" and "malformed float l"
  shows "(\<exists>e. interpret_dsl float xs prog = Inl e)
     \<and> (\<forall>ys. run_commands float xs pre = Inr ys \<longrightarrow>
          (\<exists>e. interpret_dsl float xs prog = Inl e \<and> is_parse_error e \<and>
             (\<forall>zs. run_command float zs l = Inl e)))
     \<and> (\<forall>e. run_commands float xs pre = Inl e \<longrightarrow> interpret_dsl float xs prog = Inl e)"
proof -
  from malformed_fails [OF assms(2)] obtain e where
    e: "is_parse_error e" "\<forall>zs. run_command float zs l = Inl e" by blast
  have run: "interpret_dsl float xs prog =
      (case run_commands float xs pre of Inl e' \<Rightarrow> Inl e' | Inr ys \<Rightarrow> Inl e)"
    using e(2) by (simp add: interpret_dsl_def assms(1) run_commands_append split: sum.splits)
  show ?thesis
  proof (cases "run_commands float xs pre")
    case (Inl e')
    with run show ?thesis by simp
  next
    case (Inr ys)
    with run e show ?thesis by auto
  qed
qed

theorem malformed_line_fails_witness:
  "parse_dsl ''sort\<newline>slice 1;2\<newline>sort +'' = [''sort''] @ ''slice 1;2'' # [''sort +'']
   \<and> malformed (\<lambda>s. None) ''slice 1;2''
   \<and> run_commands (\<lambda>s. None) [Fin 1, Fin 2] [''sort''] = Inr [Fin 2, Fin 1]
   \<and> interpret_dsl (\<lambda>s. None) [Fin 1, Fin 2] ''sort\<newline>slice 1;2\<newline>sort +'' = Inl (UnpackError 1)
   \<and> is_parse_error (UnpackError 1)"
proof -
  have p: "parse_dsl ''sort\<newline>slice 1;2\<newline>sort +'' = [''sort''] @ ''slice 1;2'' # [''sort +'']"
    by (simp add: parse_dsl_def split_on_def strip_def is_space_def)
  have m: "malformed (\<lambda>s. None) ''slice 1;2''"
    by (simp add: malformed_def split_ws_def is_space_def slice_arg_ok_def split_on_def)
  have r: "run_commands (\<lambda>s. None) [Fin 1, Fin 2] [''sort''] = Inr [Fin 2, Fin 1]"
    by (simp add: run_defs)
  have i: "interpret_dsl (\<lambda>s. None) [Fin 1, Fin 2] ''sort\<newline>slice 1;2\<newline>sort +'' = Inl (UnpackError 1)"
    by (simp add: run_defs)
  from malformed_line_fails [OF p m, of "[Fin 1, Fin 2]"] p m r i show ?thesis
    by (simp add: is_parse_error_def)
qed

text \<open>
  The claim as written fails when a line before the malformed one fails first: on a
  vector of three entries the program \<open>slice 5:9\<close>, \<open>foo\<close> ends with the range error
  of its first line, not with a parse error for the unknown command \<open>foo\<close>.
\<close>

theorem malformed_line_counterexample:
  "parse_dsl ''slice 5:9\<newline>foo'' = [''slice 5:9'', ''foo'']
   \<and> malformed (\<lambda>s. None) ''foo''
   \<and> interpret_dsl (\<lambda>s. None) [Fin 1, Fin 2, Fin 3] ''slice 5:9\<newline>foo'' = Inl (InvalidSliceRange 5 9 3)
   \<and> \<not> is_parse_error (InvalidSliceRange 5 9 3)"
  by (simp add: run_defs malformed_def is_parse_error_def)

section \<open>Decimal numerals\<close>

lemma digit_char_cases:
  assumes "d < 10"
  shows "digit_char d \<in> set ''0123456789'' \<and> of_char (digit_char d) = 48 + d"
proof -
  from assms have "d \<in> {0, 1, 2, 3, 4, 5, 6, 7, 8, 9}" by auto
  then show ?thesis by (auto simp: digit_char_def)
qed

lemma is_digit_digit_char: "d < 10 \<Longrightarrow> is_digit (digit_char d)"
  using digit_char_cases [of d] by (simp add: is_digit_def)

lemma digit_val_digit_char: "d < 10 \<Longrightarrow> digit_val (digit_char d) = d"
  using digit_char_cases [of d] by (simp add: digit_val_def)

lemma dec_nonempty: "dec n \<noteq> []"
  by (subst dec.simps) simp

lemma dec_digits: "\<forall>c\<in>set (dec n). is_digit c"
proof (induction n rule: dec.induct)
  case (1 n)
  show ?case
  proof (cases "n < 10")
    case True
    then show ?thesis by (subst dec.simps) (simp add: is_digit_digit_char)
  next
    case False
    with 1 show ?thesis by (subst dec.simps) (simp add: is_digit_digit_char)
  qed
qed

lemma digits_ok_all: "s \<noteq> [] \<Longrightarrow> \<forall>c\<in>set s. is_digit c \<Longrightarrow> digits_ok s"
proof (induction s rule: digits_ok.induct)
  case 1
  then show ?case by simp
next
  case (2 c)
  then show ?case by simp
next
  case (3 c d r)
  from "3.prems" have "d \<noteq> CHR ''_''" by (auto simp: is_digit_def)
  with "3" show ?case by simp
qed

lemma digits_val_snoc:
  "is_digit c \<Longrightarrow> digits_val (s @ [c]) = 10 * digits_val s + digit_val c"
  by (simp add: digits_val_def)

lemma digits_val_dec: "digits_val (dec n) = n"
proof (induction n rule: dec.induct)
  case (1 n)
  show ?case
  proof (cases "n < 10")
    case True
    then show ?thesis
      by (subst dec.simps) (simp add: digits_val_def is_digit_digit_char digit_val_digit_char)
  next
    case False
    with 1 have "digits_val (dec (n div 10)) = n div 10" by simp
    with False show ?thesis
      by (subst dec.simps) (simp add: digits_val_snoc is_digit_digit_char digit_val_digit_char)
  qed
qed

lemma digit_not_space: "is_digit c \<Longrightarrow> \<not> is_space c"
  by (auto simp: is_digit_def is_space_def)

lemma digit_not_sign: "is_digit c \<Longrightarrow> c \<noteq> CHR ''-'' \<and> c \<noteq> CHR ''+'' \<and> c \<noteq> CHR '':''"
  by (auto simp: is_digit_def)

lemma py_int_dec: "py_int (dec n) = Some (int n)"
proof -
  obtain c r where cr: "dec n = c # r"
    using dec_nonempty [of n] by (cases "dec n") auto
  have dig: "\<forall>c\<in>set (dec n). is_digit c" by (rule dec_digits)
  have "strip (dec n) = dec n"
  proof (rule strip_id)
    show "dec n \<noteq> []" by (rule dec_nonempty)
    show "\<not> is_space (hd (dec n))" using dig cr by (simp add: digit_not_space)
    show "\<not> is_space (last (dec n))"
      using dig dec_nonempty [of n] last_in_set [of "dec n"] by (blast dest: digit_not_space)
  qed
  moreover have "c \<noteq> CHR ''-''" "c \<noteq> CHR ''+''"
    using dig cr digit_not_sign [of c] by auto
  moreover have "digits_ok (c # r)"
    using digits_ok_all [OF dec_nonempty dec_digits, of n] cr by simp
  moreover have "digits_val (c # r) = n"
    using digits_val_dec [of n] cr by simp
  ultimately show ?thesis by (simp add: py_int_def cr)
qed

section \<open>Top-k\<close>

lemma interpret_slice_to:
  "interpret_dsl float xs (''slice :'' @ dec k) = slice_logits xs None (Some (int k))"
proof -
  let ?s = "''slice :'' @ dec k"
  have ns: "\<forall>c\<in>set (dec k). \<not> is_space c"
    using dec_digits [of k] by (blast dest: digit_not_space)
  have arg: "'':'' @ dec k \<noteq> [] \<and> (\<forall>c\<in>set ('':'' @ dec k). \<not> is_space c)"
    using ns by (simp add: is_space_def)
  have nl: "\<forall>c\<in>set ?s. c \<noteq> CHR 0x0A"
    using ns by (auto dest: not_space_not_newline)
  have "strip (''slice :'' @ dec k) = ''slice :'' @ dec k"
    using ns dec_nonempty [of k] by (intro strip_keyword) (auto simp: is_space_def)
  then have ne: "strip ?s \<noteq> []" by simp
  have "split_ws (''slice'' @ CHR '' '' # ('':'' @ dec k))
          = split_ws ''slice'' @ split_ws ('':'' @ dec k)"
    by (rule split_ws_append) (simp add: is_space_def)
  also have "split_ws ''slice'' = [''slice'']"
    by (rule split_ws_token) (auto simp: is_space_def)
  also have "split_ws ('':'' @ dec k) = ['':'' @ dec k]"
    using arg by (intro split_ws_token) auto
  finally have toks: "split_ws ?s = [''slice'', '':'' @ dec k]" by simp
  have "split_where (\<lambda>c. c = CHR '':'') (dec k) = [dec k]"
    using dec_digits [of k] by (intro split_where_none) (blast dest: digit_not_sign)
  then have parts: "split_on (CHR '':'') ('':'' @ dec k) = [[], dec k]"
    by (simp add: split_on_def)
  have idx: "slice_index [] = Inr None" "slice_index (dec k) = Inr (Some (int k))"
    by (simp_all add: slice_index_def dec_nonempty py_int_dec)
  have "run_command float xs ?s = slice_logits xs None (Some (int k))"
    using toks parts idx by (simp add: run_command_def)
  with interpret_dsl_line [OF nl ne] show ?thesis by simp
qed

lemma interpret_top_k:
  "interpret_dsl float xs (''sort -\<newline>slice :'' @ dec k)
     = slice_logits (rev (np_sort xs)) None (Some (int k))"
proof -
  have "interpret_dsl float xs (''sort -'' @ CHR 0x0A # (''slice :'' @ dec k))
     = (case interpret_dsl float xs ''sort -'' of Inl e \<Rightarrow> Inl e
        | Inr ys \<Rightarrow> interpret_dsl float ys (''slice :'' @ dec k))"
    by (rule interpret_dsl_append)
  moreover have "interpret_dsl float xs ''sort -'' = Inr (rev (np_sort xs))"
    using interpret_sort_arg [of "''-''" float xs] by (simp add: is_space_def sort_logits_def)
  ultimately show ?thesis
    using interpret_slice_to [of float "rev (np_sort xs)" k] by simp
qed


lemma slice_to_take:
  assumes "0 < k" and "k \<le> length zs"
  shows "slice_logits zs None (Some (int k)) = Inr (take k zs @ replicate (length zs - k) NegInf)"
proof -
  from slice_logits_ok [of 0 "int k" zs None "Some (int k)"] assms
  obtain ys where ys: "slice_logits zs None (Some (int k)) = Inr ys" "length ys = length zs"
    "\<forall>i<length zs. ys ! i = (if 0 \<le> int i \<and> int i < int k then zs ! i else NegInf)"
    by auto
  have "ys = take k zs @ replicate (length zs - k) NegInf"
  proof (rule nth_equalityI)
    show "length ys = length (take k zs @ replicate (length zs - k) NegInf)"
      using ys(2) assms by simp
    fix i
    assume "i < length ys"
    with ys(2,3) assms show "ys ! i = (take k zs @ replicate (length zs - k) NegInf) ! i"
      by (simp add: nth_append)
  qed
  with ys(1) show ?thesis by simp
qed

text \<open>
  C2. For a vector of length N and \<open>0 < k \<le> N\<close>, the program \<open>sort -\<close>,
  \<open>slice :k\<close> returns a vector of length N whose first k entries are in descending
  order and are the k largest entries of the input: together with some rest they make up
  the input, and no entry of the rest is above any of them (in the order \<open>np.sort\<close>
  sorts by, and so never by the float comparison either). Every later entry is negative
  infinity. On 0.1, 2.3, 1.1, 0.7, -1.0 the program \<open>sort\<close>, \<open>slice :3\<close> returns
  2.3, 1.1, 0.7 and two negative infinities.
\<close>

theorem top_k:
  "(0 < k \<and> k \<le> length xs \<longrightarrow>
      (\<exists>res. interpret_dsl float xs (''sort -\<newline>slice :'' @ dec k) = Inr res \<and>
         length res = length xs \<and>
         sorted_wrt (\<lambda>a b. np_le b a) (take k res) \<and>
         (\<exists>rest. mset xs = mset (take k res) + mset rest \<and>
            (\<forall>a\<in>set (take k res). \<forall>b\<in>set rest. np_le b a \<and> \<not> fl_lt a b)) \<and>
         (\<forall>i. k \<le> i \<and> i < length xs \<longrightarrow> res ! i = NegInf)))
   \<and> interpret_dsl float [Fin 0.1, Fin 2.3, Fin 1.1, Fin 0.7, Fin (- 1)] ''sort\<newline>slice :3''
       = Inr [Fin 2.3, Fin 1.1, Fin 0.7, NegInf, NegInf]"
proof -
  have ex: "interpret_dsl float [Fin 0.1, Fin 2.3, Fin 1.1, Fin 0.7, Fin (- 1)] ''sort\<newline>slice :3''
       = Inr [Fin 2.3, Fin 1.1, Fin 0.7, NegInf, NegInf]"
    by (simp add: run_defs)
  have gen: "\<exists>res. interpret_dsl float xs (''sort -\<newline>slice :'' @ dec k) = Inr res \<and>
         length res = length xs \<and>
         sorted_wrt (\<lambda>a b. np_le b a) (take k res) \<and>
         (\<exists>rest. mset xs = mset (take k res) + mset rest \<and>
            (\<forall>a\<in>set (take k res). \<forall>b\<in>set rest. np_le b a \<and> \<not> fl_lt a b)) \<and>
         (\<forall>i. k \<le> i \<and> i < length xs \<longrightarrow> res ! i = NegInf)"
    if k: "0 < k" "k \<le> length xs"
  proof -
    define zs where "zs = rev (np_sort xs)"
    define res where "res = take k zs @ replicate (length zs - k) NegInf"
    have len: "length zs = length xs" by (simp add: zs_def length_np_sort)
    have srt: "sorted_wrt (\<lambda>a b. np_le b a) zs" by (simp add: zs_def sorted_rev_np_sort)
    have run: "interpret_dsl float xs (''sort -\<newline>slice :'' @ dec k) = Inr res"
      using slice_to_take [of k zs] k len
      by (simp only: interpret_top_k zs_def res_def)
    have tk: "take k res = take k zs" using k len by (simp add: res_def)
    have split: "zs = take k zs @ drop k zs" by simp
    have "sorted_wrt (\<lambda>a b. np_le b a) (take k zs @ drop k zs)" using srt by simp
    then have s1: "sorted_wrt (\<lambda>a b. np_le b a) (take k zs)"
      and s2: "\<forall>a\<in>set (take k zs). \<forall>b\<in>set (drop k zs). np_le b a"
      unfolding sorted_wrt_append by auto
    have "mset xs = mset zs" by (simp add: zs_def mset_np_sort)
    also have "\<dots> = mset (take k zs) + mset (drop k zs)"
      by (metis split mset_append)
    finally have m: "mset xs = mset (take k res) + mset (drop k zs)" by (simp add: tk)
    have s3: "\<forall>a\<in>set (take k res). \<forall>b\<in>set (drop k zs). np_le b a \<and> \<not> fl_lt a b"
      using s2 np_le_not_fl_lt by (auto simp: tk)
    have tail: "\<forall>i. k \<le> i \<and> i < length xs \<longrightarrow> res ! i = NegInf"
      using k len by (auto simp: res_def nth_append)
    have lr: "length res = length xs" using k len by (simp add: res_def)
    have s1': "sorted_wrt (\<lambda>a b. np_le b a) (take k res)" using s1 by (simp add: tk)
    have rest: "\<exists>rest. mset xs = mset (take k res) + mset rest \<and>
            (\<forall>a\<in>set (take k res). \<forall>b\<in>set rest. np_le b a \<and> \<not> fl_lt a b)"
      using m s3 by blast
    from run lr s1' rest tail show ?thesis by blast
  qed
  from ex gen show ?thesis by blast
qed

theorem top_k_witness:
  "0 < (2::nat) \<and> 2 \<le> length [Fin 1, Fin 4, Fin 3, NegInf, Fin 2]
   \<and> interpret_dsl (\<lambda>s. None) [Fin 1, Fin 4, Fin 3, NegInf, Fin 2] (''sort -\<newline>slice :'' @ dec 2)
       = Inr [Fin 4, Fin 3, NegInf, NegInf, NegInf]"
  using top_k [of 2 "[Fin 1, Fin 4, Fin 3, NegInf, Fin 2]" "\<lambda>s. None"]
  by (simp add: run_defs dec.simps digit_char_def)

end
